theory Spec2Isabelle
  imports Main "HOL-Library.Multiset"
begin

section \<open>Data model\<close>

text \<open>
  Modelled from the spec: the enum \<open>Services\<close> (models/indexSpecificRule.ts) is not among
  the sources. The spec gives a rule's selector as one of ALL or a consumer's name, and
  main.ts builds the four consumers Sonarr, Radarr, Lidarr and Readarr. The member
  \<open>Services.ALL\<close> is written \<open>ALL_S\<close>, since \<open>ALL\<close> is the ASCII form of a quantifier.
\<close>

datatype Services = ALL_S | SONARR | RADARR | LIDARR | READARR

text \<open>
  Modelled from the spec: the rule type (models/indexSpecificRule.ts) is not among the
  sources; service.ts reads the four fields below. \<open>category\<close> and \<open>animeCategory\<close>
  are tested with \<open>!= null\<close>, so an absent one is \<open>None\<close>. Identifiers and categories are
  integers (spec, data model).
\<close>

record IndexSpecificRule =
  service :: Services
  indexerId :: int
  category :: "int option"
  animeCategory :: "int option"

text \<open>
  Modelled from the spec: models/jackettIndexer.ts is not among the sources. The fields
  are those of the spec's SourceIndexer; service.ts reads \<open>id\<close> and \<open>categories\<close>.
\<close>

record JackettIndexer =
  id_J :: int
  name_J :: string
  categories_J :: "int list"

text \<open>
  Modelled from the spec: models/indexer.ts is not among the sources. The fields are
  those of the spec's ConsumerIndexer; \<open>id\<close> and \<open>appId\<close> may be undefined in service.ts
  (the ids pass through \<open>filter(notEmpty)\<close>, \<open>update\<close> takes \<open>number | undefined\<close>).
  The method \<open>compare\<close> is abstract per consumer and is a parameter of the functions
  that call it.
\<close>

record Indexer =
  id_I :: "int option"
  appId :: "int option"
  categories_I :: "int list"

text \<open>The fields of the abstract class \<open>Service\<close> (service.ts, lines 11-14).\<close>

record Service =
  serviceName :: Services
  categories :: "int list"
  seeds :: int
  indexers :: "Indexer list"

section \<open>Override rules: application and reversal\<close>

text \<open>
  The body of the \<open>forEach\<close> callback of \<open>indexerSpecificConfiguration\<close> (lines 184-195).
  The two arrays are mutated in place by \<open>push\<close>; here the pair is returned updated.
\<close>

fun applyRule ::
  "Services \<Rightarrow> JackettIndexer \<Rightarrow> IndexSpecificRule \<Rightarrow> int list \<times> int list \<Rightarrow> int list \<times> int list"
where
  "applyRule sn indexer r (supportedCategories, animeSupportedCategories) =
     (if service r = ALL_S \<or> service r = sn then
        if id_J indexer = indexerId r then
          ((case category r of
              None \<Rightarrow> supportedCategories
            | Some c \<Rightarrow>
                if c \<notin> set supportedCategories then supportedCategories @ [c]
                else supportedCategories),
           (case animeCategory r of
              None \<Rightarrow> animeSupportedCategories
            | Some a \<Rightarrow>
                if a \<notin> set animeSupportedCategories then animeSupportedCategories @ [a]
                else animeSupportedCategories))
        else (supportedCategories, animeSupportedCategories)
      else (supportedCategories, animeSupportedCategories))"

definition indexerSpecificConfiguration ::
  "IndexSpecificRule list \<Rightarrow> Services \<Rightarrow> JackettIndexer \<Rightarrow> int list \<Rightarrow> int list
     \<Rightarrow> int list \<times> int list"
where
  "indexerSpecificConfiguration rules sn indexer supportedCategories animeSupportedCategories =
     fold (applyRule sn indexer) rules (supportedCategories, animeSupportedCategories)"

text \<open>
  The body of the callback of \<open>undoIndexerSpecificConfiguration\<close> (lines 205-216):
  \<open>xs.splice(xs.indexOf(c), 1)\<close> removes the first occurrence of \<open>c\<close>, which is
  \<open>remove1\<close>.
\<close>

fun undoRule ::
  "Services \<Rightarrow> JackettIndexer \<Rightarrow> IndexSpecificRule \<Rightarrow> int list \<times> int list \<Rightarrow> int list \<times> int list"
where
  "undoRule sn indexer r (supportedCategories, animeSupportedCategories) =
     (if service r = ALL_S \<or> service r = sn then
        if id_J indexer = indexerId r then
          ((case category r of
              None \<Rightarrow> supportedCategories
            | Some c \<Rightarrow>
                if c \<in> set supportedCategories then remove1 c supportedCategories
                else supportedCategories),
           (case animeCategory r of
              None \<Rightarrow> animeSupportedCategories
            | Some a \<Rightarrow>
                if a \<in> set animeSupportedCategories then remove1 a animeSupportedCategories
                else animeSupportedCategories))
        else (supportedCategories, animeSupportedCategories)
      else (supportedCategories, animeSupportedCategories))"

definition undoIndexerSpecificConfiguration ::
  "IndexSpecificRule list \<Rightarrow> Services \<Rightarrow> JackettIndexer \<Rightarrow> int list \<Rightarrow> int list
     \<Rightarrow> int list \<times> int list"
where
  "undoIndexerSpecificConfiguration rules sn indexer supportedCategories animeSupportedCategories =
     fold (undoRule sn indexer) rules (supportedCategories, animeSupportedCategories)"

text \<open>
  The categories, and the anime categories, that the rules matching a consumer and an
  indexer name, in the order of the rule table. They are used to state the properties of
  the two passes; the passes themselves are the folds above.
\<close>

definition ruleMatches :: "Services \<Rightarrow> JackettIndexer \<Rightarrow> IndexSpecificRule \<Rightarrow> bool" where
  "ruleMatches sn indexer r =
     ((service r = ALL_S \<or> service r = sn) \<and> id_J indexer = indexerId r)"

definition namedCategories ::
  "IndexSpecificRule list \<Rightarrow> Services \<Rightarrow> JackettIndexer \<Rightarrow> int list" where
  "namedCategories rules sn indexer =
     List.map_filter category (filter (ruleMatches sn indexer) rules)"

definition namedAnimeCategories ::
  "IndexSpecificRule list \<Rightarrow> Services \<Rightarrow> JackettIndexer \<Rightarrow> int list" where
  "namedAnimeCategories rules sn indexer =
     List.map_filter animeCategory (filter (ruleMatches sn indexer) rules)"

text \<open>One guarded \<open>push\<close>.\<close>

definition pushNew :: "int \<Rightarrow> int list \<Rightarrow> int list" where
  "pushNew c xs = (if c \<in> set xs then xs else xs @ [c])"

section \<open>Category policy and equivalence check\<close>

text \<open>
  Modelled from the spec: \<open>arrayEquals\<close> and \<open>notEmpty\<close> (helper.ts) are not among the
  sources. The spec makes two category collections equivalent iff they contain the same
  elements, regardless of insertion order, which is equality of their sets of elements.
  \<open>notEmpty\<close> is the guard that \<open>filter\<close> uses to drop the undefined entries of a list;
  \<open>filterNotEmpty xs\<close> is \<open>xs.filter(notEmpty)\<close>, with the narrower element type.
\<close>

definition arrayEquals :: "int list \<Rightarrow> int list \<Rightarrow> bool" where
  "arrayEquals a b = (set a = set b)"

definition notEmpty :: "'a option \<Rightarrow> bool" where
  "notEmpty v = (v \<noteq> None)"

definition filterNotEmpty :: "'a option list \<Rightarrow> 'a list" where
  "filterNotEmpty xs = map the (filter notEmpty xs)"

text \<open>\<open>Array.prototype.findIndex\<close>: the index of the first match, or -1.\<close>

fun findIndex :: "('a \<Rightarrow> bool) \<Rightarrow> 'a list \<Rightarrow> int" where
  "findIndex P [] = - 1"
| "findIndex P (x # xs) =
     (if P x then 0 else (let i = findIndex P xs in if i = - 1 then - 1 else i + 1))"

text \<open>Lines 167-176. The rule table \<open>Config.indexSpecificRules\<close> is a parameter.\<close>

definition doesIndexerSpecificRuleApply ::
  "IndexSpecificRule list \<Rightarrow> Services \<Rightarrow> JackettIndexer \<Rightarrow> bool" where
  "doesIndexerSpecificRuleApply rules sn indexer =
     (- 1 \<noteq> findIndex
        (\<lambda>indexSpecificRule.
           if service indexSpecificRule = ALL_S \<or> service indexSpecificRule = sn then
             if id_J indexer = indexerId indexSpecificRule then True else False
           else False)
        rules)"

text \<open>Lines 151-153.\<close>

definition shouldAdd :: "IndexSpecificRule list \<Rightarrow> Service \<Rightarrow> JackettIndexer \<Rightarrow> bool" where
  "shouldAdd rules s indexer =
     (list_ex (\<lambda>category. category \<in> set (categories s)) (categories_J indexer)
      \<or> doesIndexerSpecificRuleApply rules (serviceName s) indexer)"

text \<open>
  Lines 159-165. \<open>undoIndexerSpecificConfiguration\<close> is handed the array
  \<open>current.categories\<close> itself and a fresh empty array, so the existing indexer leaves
  the call with its categories replaced by the first component of the reversal; the
  second component is dropped. The result is the returned boolean and the indexer as
  the call leaves it.
\<close>

definition containsAllWantedCategories ::
  "IndexSpecificRule list \<Rightarrow> Service \<Rightarrow> Indexer \<Rightarrow> JackettIndexer \<Rightarrow> bool \<times> Indexer" where
  "containsAllWantedCategories rules s current indexer =
     (let availableCategories = filter (\<lambda>c. c \<in> set (categories_J indexer)) (categories s);
          current' = current\<lparr>categories_I :=
            fst (undoIndexerSpecificConfiguration rules (serviceName s) indexer
                   (categories_I current) [])\<rparr>
      in (arrayEquals (categories_I current') availableCategories, current'))"

text \<open>
  Lines 155-157: \<open>!current.compare(indexer) || !this.containsAllWantedCategories(...)\<close>.
  The right operand is evaluated, and the existing indexer changed, only when the left
  one is false.
\<close>

definition shouldUpdate ::
  "IndexSpecificRule list \<Rightarrow> (Indexer \<Rightarrow> JackettIndexer \<Rightarrow> bool) \<Rightarrow> Service
     \<Rightarrow> Indexer \<Rightarrow> JackettIndexer \<Rightarrow> bool \<times> Indexer" where
  "shouldUpdate rules compare s current indexer =
     (if \<not> compare current indexer then (True, current)
      else (case containsAllWantedCategories rules s current indexer of
              (b, current') \<Rightarrow> (\<not> b, current')))"

section \<open>The differ\<close>

text \<open>
  What the code throws and what axios rejects with. \<open>TypeError\<close> is the read of a property
  of \<open>undefined\<close> or \<open>null\<close> (after a \<open>find(...)!\<close> that found nothing, or of a
  response without data); \<open>SyntaxError\<close> is thrown by \<open>JSON.parse\<close>. An \<open>AxiosError\<close> is
  an error of axios with a response; every other rejection is an \<open>OtherError\<close> with its
  message. The \<open>catch\<close> callbacks of service.ts read four things from an error with a
  response, and the last three reads can themselves throw:
  \<^item> \<open>response.status\<close>;
  \<^item> \<open>JSON.parse(error.response.config.data).name\<close> (lines 110-111), a SyntaxError when
    the data is no JSON text, a TypeError when the response has no config or the text
    is \<open>null\<close>;
  \<^item> \<open>error.response.data[0]?.errorMessage\<close> (line 111), a TypeError when the body of
    the response is \<open>null\<close> or \<open>undefined\<close>, and no message when the body has no such entry;
  \<^item> \<open>error.config!.url\<close> (line 81), a TypeError when the error has no config.
\<close>

datatype 'a reading = ThrowsTypeError | ThrowsSyntaxError | Yields 'a

record ErrorResponse =
  status_E :: int
  requestName :: "string reading"
  firstMessage :: "string option reading"
  requestUrl :: "string reading"

datatype error =
    TypeError
  | SyntaxError
  | AxiosError ErrorResponse
  | OtherError string

fun readOutcome :: "'a reading \<Rightarrow> error + 'a" where
  "readOutcome ThrowsTypeError = Inl TypeError"
| "readOutcome ThrowsSyntaxError = Inl SyntaxError"
| "readOutcome (Yields v) = Inr v"

text \<open>The value \<open>checkDifferences\<close> returns, with what it leaves behind: the ids it warned
  about (line 145) and the service with its indexers as \<open>shouldUpdate\<close> left them.\<close>

record Differences =
  add :: "JackettIndexer list"
  update :: "JackettIndexer list"
  notInJackett :: "int list"
  after :: Service

text \<open>Lines 123-130, over the list \<open>diff\<close>: the \<open>map\<close> and the \<open>filter(notEmpty)\<close>.\<close>

fun shouldBeAddedIndexers ::
  "IndexSpecificRule list \<Rightarrow> Service \<Rightarrow> JackettIndexer list \<Rightarrow> int list
     \<Rightarrow> error + JackettIndexer list" where
  "shouldBeAddedIndexers rules s jackettIndexers [] = Inr []"
| "shouldBeAddedIndexers rules s jackettIndexers (indexersId # diff) =
     (case find (\<lambda>indexer. id_J indexer = indexersId) jackettIndexers of
        None \<Rightarrow> Inl TypeError
      | Some indexer \<Rightarrow>
          (case shouldBeAddedIndexers rules s jackettIndexers diff of
             Inl e \<Rightarrow> Inl e
           | Inr rest \<Rightarrow> Inr (if shouldAdd rules s indexer then indexer # rest else rest)))"

text \<open>
  Lines 133-141, over the list \<open>same\<close>. \<open>this.indexers.find\<close> returns the first existing
  indexer with the id; \<open>shouldUpdate\<close> may change it in place, so the service is threaded
  through the loop with that element replaced.
\<close>

fun shouldBeUpdatedIndexers ::
  "IndexSpecificRule list \<Rightarrow> (Indexer \<Rightarrow> JackettIndexer \<Rightarrow> bool) \<Rightarrow> Service
     \<Rightarrow> JackettIndexer list \<Rightarrow> int list \<Rightarrow> error + JackettIndexer list \<times> Service" where
  "shouldBeUpdatedIndexers rules compare s jackettIndexers [] = Inr ([], s)"
| "shouldBeUpdatedIndexers rules compare s jackettIndexers (indexersId # same) =
     (case find (\<lambda>indexer. id_J indexer = indexersId) jackettIndexers of
        None \<Rightarrow> Inl TypeError
      | Some jacketIndexer \<Rightarrow>
          (case List.extract (\<lambda>indexer. id_I indexer = Some indexersId) (indexers s) of
             None \<Rightarrow> Inl TypeError
           | Some (before, existingIndexer, behind) \<Rightarrow>
               (case shouldUpdate rules compare s existingIndexer jacketIndexer of
                  (b, existingIndexer') \<Rightarrow>
                    (case shouldBeUpdatedIndexers rules compare
                            (s\<lparr>indexers := before @ existingIndexer' # behind\<rparr>)
                            jackettIndexers same of
                       Inl e \<Rightarrow> Inl e
                     | Inr (rest, s') \<Rightarrow>
                         Inr (if b then jacketIndexer # rest else rest, s')))))"

text \<open>Lines 118-149.\<close>

definition serviceIdList :: "Service \<Rightarrow> int list" where
  "serviceIdList s = filterNotEmpty (map id_I (indexers s))"

definition checkDifferences ::
  "IndexSpecificRule list \<Rightarrow> (Indexer \<Rightarrow> JackettIndexer \<Rightarrow> bool) \<Rightarrow> Service
     \<Rightarrow> JackettIndexer list \<Rightarrow> error + Differences" where
  "checkDifferences rules compare s jackettIndexers =
     (let idList = map id_J jackettIndexers;
          diff = filter (\<lambda>i. i \<notin> set (serviceIdList s)) idList
      in case shouldBeAddedIndexers rules s jackettIndexers diff of
           Inl e \<Rightarrow> Inl e
         | Inr shouldBeAdded \<Rightarrow>
             (let same = filter (\<lambda>i. i \<in> set (serviceIdList s)) idList
              in case shouldBeUpdatedIndexers rules compare s jackettIndexers same of
                   Inl e \<Rightarrow> Inl e
                 | Inr (shouldBeUpdated, s') \<Rightarrow>
                     Inr \<lparr>add = shouldBeAdded, update = shouldBeUpdated,
                          notInJackett = filter (\<lambda>i. i \<notin> set idList) (serviceIdList s),
                          after = s'\<rparr>))"

text \<open>
  The existing indexer that \<open>checkDifferences\<close> compares a source indexer with (line 135),
  and the verdict of \<open>shouldUpdate\<close> on the pair; used to state what the update list holds.
\<close>

definition existingFor :: "Service \<Rightarrow> int \<Rightarrow> Indexer option" where
  "existingFor s i = find (\<lambda>indexer. id_I indexer = Some i) (indexers s)"

definition needsUpdate ::
  "IndexSpecificRule list \<Rightarrow> (Indexer \<Rightarrow> JackettIndexer \<Rightarrow> bool) \<Rightarrow> Service
     \<Rightarrow> JackettIndexer \<Rightarrow> bool" where
  "needsUpdate rules compare s indexer =
     (case existingFor s (id_J indexer) of
        None \<Rightarrow> False
      | Some current \<Rightarrow> fst (shouldUpdate rules compare s current indexer))"

section \<open>Requests, responses and the driver\<close>

text \<open>
  The two writes of a service (lines 40-50): \<open>add\<close> posts the body made from a source
  indexer, \<open>update\<close> puts that body, with the consumer's \<open>appId\<close> in it, to the url of that
  \<open>appId\<close>. \<open>generateDefaultBody\<close> is abstract and its implementations are not among
  the sources; it is taken to return a body, so a request is given by the indexer and
  the \<open>appId\<close>.
\<close>

datatype Request = Post JackettIndexer | Put "int option" JackettIndexer

fun indexerOf :: "Request \<Rightarrow> JackettIndexer" where
  "indexerOf (Post indexer) = indexer"
| "indexerOf (Put a indexer) = indexer"

text \<open>
  A response as \<open>handleRequest\<close> reads it: \<open>response.status\<close>, and \<open>response.data.name\<close>,
  which is \<open>None\<close> when the response has no data (the read then throws a TypeError).
\<close>

record Response =
  status :: int
  data :: "string option"

text \<open>The lines the run writes to the console.\<close>

datatype LogLine =
    AddedSuccessfully string
  | UpdatedSuccessfully string
  | UnknownResponseStatus string
  | SomethingWentWrong int string "string option"
  | UnexpectedError error
  | TestedUrlAndApiKey Services string
  | CouldntGetIndexes Services int string
  | StartingSync Services
  | SyncIsDone Services
  | Failed Services error
  | SyncFailed Services error
  | CouldntGetIndexers error

text \<open>
  Lines 98-116. The promise of a request settles with an error or a response. The
  \<open>then\<close> callback logs a response; the \<open>catch\<close> callback, chained behind it, takes an
  error of the request and an error thrown by the \<open>then\<close> callback alike. For an error
  with a response it reads the name in the request body and the first error message
  before it logs; when one of the reads throws, nothing is logged and the promise that
  \<open>handleRequest\<close> returns is rejected with what was thrown. The result is how that
  promise settles: the line logged, or the error it is rejected with.
\<close>

definition thenHandler :: "Response \<Rightarrow> error + LogLine" where
  "thenHandler response =
     (case data response of
        None \<Rightarrow> Inl TypeError
      | Some name \<Rightarrow>
          Inr (if status response = 201 then AddedSuccessfully name
               else if status response = 202 then UpdatedSuccessfully name
               else UnknownResponseStatus name))"

fun catchHandler :: "error \<Rightarrow> error + LogLine" where
  "catchHandler (AxiosError response) =
     (case readOutcome (requestName response) of
        Inl thrown \<Rightarrow> Inl thrown
      | Inr name \<Rightarrow>
          (case readOutcome (firstMessage response) of
             Inl thrown \<Rightarrow> Inl thrown
           | Inr message \<Rightarrow> Inr (SomethingWentWrong (status_E response) name message)))"
| "catchHandler error = Inr (UnexpectedError error)"

definition handleRequest :: "error + Response \<Rightarrow> error + LogLine" where
  "handleRequest axiosResponsePromise =
     (case axiosResponsePromise of
        Inl error \<Rightarrow> catchHandler error
      | Inr response \<Rightarrow>
          (case thenHandler response of
             Inl error \<Rightarrow> catchHandler error
           | Inr line \<Rightarrow> Inr line))"

text \<open>
  \<open>Promise.all\<close>: fulfilled with the values when every promise is fulfilled, rejected as
  soon as one of them is. Which rejection comes first is a matter of time; the model
  takes the first in the order of the list.
\<close>

fun Promise_all :: "(error + 'a) list \<Rightarrow> error + 'a list" where
  "Promise_all [] = Inr []"
| "Promise_all (Inl e # promises) = Inl e"
| "Promise_all (Inr v # promises) =
     (case Promise_all promises of Inl e \<Rightarrow> Inl e | Inr vs \<Rightarrow> Inr (v # vs))"

text \<open>
  \<open>Service.sync\<close>, lines 56-68. Both \<open>map\<close>s run before the first \<open>await\<close>, so every
  request is issued before any response is looked at, and every callback runs to its end
  whatever becomes of the others. A callback of the update batch that finds no existing
  indexer throws a TypeError before it issues its request. Line 67 awaits the add batch
  and then the update batch, so \<open>sync\<close> is rejected when a promise of either batch is.
  \<open>respond\<close> is what the consumer's API answers to a request. The outcome holds the
  requests issued, how the promise of each entry of the two batches settles, in the order
  of the batches, and how the promise of \<open>sync\<close> settles. What the runtime does with a
  rejected promise that nothing awaits is not part of the model.
\<close>

record SyncOutcome =
  requests :: "Request list"
  settled :: "(error + LogLine) list"
  result :: "error + unit"

definition updateRequest :: "Service \<Rightarrow> JackettIndexer \<Rightarrow> error + Request" where
  "updateRequest s indexer =
     (case find (\<lambda>existingIndexer. id_I existingIndexer = Some (id_J indexer)) (indexers s) of
        None \<Rightarrow> Inl TypeError
      | Some existingIndexer \<Rightarrow> Inr (Put (appId existingIndexer) indexer))"

definition sync ::
  "IndexSpecificRule list \<Rightarrow> (Indexer \<Rightarrow> JackettIndexer \<Rightarrow> bool) \<Rightarrow> (Request \<Rightarrow> error + Response)
     \<Rightarrow> Service \<Rightarrow> JackettIndexer list \<Rightarrow> SyncOutcome" where
  "sync rules compare respond s jackettIndexers =
     (case checkDifferences rules compare s jackettIndexers of
        Inl e \<Rightarrow> \<lparr>requests = [], settled = [], result = Inl e\<rparr>
      | Inr d \<Rightarrow>
          (let addPromises =
                 map (\<lambda>indexer. (Some (Post indexer), handleRequest (respond (Post indexer))))
                   (add d);
               updatePromises =
                 map (\<lambda>indexer.
                        case updateRequest (after d) indexer of
                          Inl e \<Rightarrow> (None, Inl e)
                        | Inr q \<Rightarrow> (Some q, handleRequest (respond q)))
                   (update d)
           in \<lparr>requests = List.map_filter fst (addPromises @ updatePromises),
               settled = map snd (addPromises @ updatePromises),
               result =
                 (case Promise_all (map snd addPromises) of
                    Inl e \<Rightarrow> Inl e
                  | Inr added \<Rightarrow>
                      (case Promise_all (map snd updatePromises) of
                         Inl e \<Rightarrow> Inl e
                       | Inr updated \<Rightarrow> Inr ()))\<rparr>))"







section \<open>Concrete inputs\<close>

text \<open>
  The inputs of the spec's scenarios, extended. Rule \<open>rule_5030\<close> forces category 5030
  (and anime category 5070) for indexer 1 on every consumer; \<open>rule_forced\<close> forces
  category 7000 for indexer 3 on Sonarr. The consumer \<open>sonarr\<close> wants category 2000 and
  holds indexers 1 (as created under \<open>rule_5030\<close>), 2 (stale) and 5 (not in the source).
  The source catalog holds indexers 1 to 4.
\<close>

definition rule_5030 :: IndexSpecificRule where
  "rule_5030 = \<lparr>service = ALL_S, indexerId = 1, category = Some 5030, animeCategory = Some 5070\<rparr>"

definition rule_forced :: IndexSpecificRule where
  "rule_forced = \<lparr>service = SONARR, indexerId = 3, category = Some 7000, animeCategory = None\<rparr>"

definition source_1 :: JackettIndexer where
  "source_1 = \<lparr>id_J = 1, name_J = ''one'', categories_J = [2000]\<rparr>"

definition source_2 :: JackettIndexer where
  "source_2 = \<lparr>id_J = 2, name_J = ''two'', categories_J = [2000, 3000]\<rparr>"

definition source_3 :: JackettIndexer where
  "source_3 = \<lparr>id_J = 3, name_J = ''three'', categories_J = [7000]\<rparr>"

definition source_4 :: JackettIndexer where
  "source_4 = \<lparr>id_J = 4, name_J = ''four'', categories_J = [8000]\<rparr>"

definition catalog :: "JackettIndexer list" where
  "catalog = [source_1, source_2, source_3, source_4]"

definition existing_1 :: Indexer where
  "existing_1 = \<lparr>id_I = Some 1, appId = Some 7, categories_I = [2000, 5030]\<rparr>"

definition existing_2 :: Indexer where
  "existing_2 = \<lparr>id_I = Some 2, appId = Some 9, categories_I = [3000]\<rparr>"

definition existing_5 :: Indexer where
  "existing_5 = \<lparr>id_I = Some 5, appId = Some 8, categories_I = [2000]\<rparr>"

definition existing_anime :: Indexer where
  "existing_anime = \<lparr>id_I = Some 1, appId = Some 7, categories_I = [2000, 5030, 5070]\<rparr>"

definition sonarr :: Service where
  "sonarr = \<lparr>serviceName = SONARR, categories = [2000], seeds = 1,
              indexers = [existing_1, existing_2, existing_5]\<rparr>"

text \<open>A consumer that wants two categories, and records that list them in another order.\<close>

definition radarr :: Service where
  "radarr = \<lparr>serviceName = RADARR, categories = [2000, 3000], seeds = 1, indexers = []\<rparr>"

definition source_swapped :: JackettIndexer where
  "source_swapped = \<lparr>id_J = 1, name_J = ''one'', categories_J = [3000, 2000]\<rparr>"

definition existing_swapped :: Indexer where
  "existing_swapped = \<lparr>id_I = Some 1, appId = Some 7, categories_I = [3000, 5030, 2000]\<rparr>"

text \<open>A \<open>compare\<close> that finds the identity fields equal.\<close>

definition identical :: "Indexer \<Rightarrow> JackettIndexer \<Rightarrow> bool" where
  "identical current indexer = True"

text \<open>
  Two APIs that reject the write for indexer 3 with status 400 and accept every other
  one: the first answers with a list of error messages, the second with the body
  \<open>null\<close>. And three consumers: Sonarr behind the first API, Sonarr behind the second,
  and Radarr, whose \<open>validate\<close> fails without a response.
\<close>

definition bad_request :: ErrorResponse where
  "bad_request = \<lparr>status_E = 400, requestName = Yields ''three'',
                   firstMessage = Yields (Some ''bad request''),
                   requestUrl = Yields ''/api/v3/indexer''\<rparr>"

definition accepts :: "Request \<Rightarrow> Response" where
  "accepts q = \<lparr>status = (case q of Post indexer \<Rightarrow> 201 | Put a indexer \<Rightarrow> 202),
                data = Some (name_J (indexerOf q))\<rparr>"

definition rejects_3 :: "Request \<Rightarrow> error + Response" where
  "rejects_3 q =
     (if id_J (indexerOf q) = 3 then Inl (AxiosError bad_request) else Inr (accepts q))"

definition null_body_3 :: "Request \<Rightarrow> error + Response" where
  "null_body_3 q =
     (if id_J (indexerOf q) = 3
      then Inl (AxiosError (bad_request\<lparr>firstMessage := ThrowsTypeError\<rparr>))
      else Inr (accepts q))"




section \<open>The two passes, componentwise\<close>

lemma apply_fst:
  "fst (fold (applyRule sn j) rules (C, A)) = fold pushNew (namedCategories rules sn j) C"
proof (induction rules arbitrary: C A)
  case Nil
  show ?case by (simp add: namedCategories_def)
next
  case (Cons r rules)
  show ?case
    by (cases "category r")
       (simp_all add: Cons.IH namedCategories_def ruleMatches_def pushNew_def)
qed

lemma apply_snd:
  "snd (fold (applyRule sn j) rules (C, A)) = fold pushNew (namedAnimeCategories rules sn j) A"
proof (induction rules arbitrary: C A)
  case Nil
  show ?case by (simp add: namedAnimeCategories_def)
next
  case (Cons r rules)
  show ?case
    by (cases "animeCategory r")
       (simp_all add: Cons.IH namedAnimeCategories_def ruleMatches_def pushNew_def)
qed

lemma undo_fst:
  "fst (fold (undoRule sn j) rules (C, A)) = fold remove1 (namedCategories rules sn j) C"
proof (induction rules arbitrary: C A)
  case Nil
  show ?case by (simp add: namedCategories_def)
next
  case (Cons r rules)
  show ?case
    by (cases "category r")
       (simp_all add: Cons.IH namedCategories_def ruleMatches_def remove1_idem)
qed

lemma undo_snd:
  "snd (fold (undoRule sn j) rules (C, A)) = fold remove1 (namedAnimeCategories rules sn j) A"
proof (induction rules arbitrary: C A)
  case Nil
  show ?case by (simp add: namedAnimeCategories_def)
next
  case (Cons r rules)
  show ?case
    by (cases "animeCategory r")
       (simp_all add: Cons.IH namedAnimeCategories_def ruleMatches_def remove1_idem)
qed

section \<open>Guarded pushes and first-occurrence removals\<close>

lemma pushNew_absorb: "set cs \<subseteq> set X \<Longrightarrow> fold pushNew cs X = X"
  by (induction cs arbitrary: X) (auto simp: pushNew_def)

lemma set_fold_pushNew: "set (fold pushNew cs X) = set X \<union> set cs"
  by (induction cs arbitrary: X) (auto simp: pushNew_def)

lemma pushNew_idem: "fold pushNew cs (fold pushNew cs X) = fold pushNew cs X"
  by (rule pushNew_absorb) (simp add: set_fold_pushNew)

lemma fold_pushNew_append:
  "set cs \<inter> set C = {} \<Longrightarrow> distinct D \<Longrightarrow>
   \<exists>D'. fold pushNew cs (C @ D) = C @ D' \<and> distinct D' \<and> set D' \<subseteq> set D \<union> set cs"
proof (induction cs arbitrary: D)
  case Nil
  then show ?case by simp
next
  case (Cons c cs)
  show ?case
  proof (cases "c \<in> set D")
    case True
    then have "fold pushNew (c # cs) (C @ D) = fold pushNew cs (C @ D)"
      by (simp add: pushNew_def)
    moreover from Cons.IH [of D] Cons.prems
    obtain D' where "fold pushNew cs (C @ D) = C @ D'" "distinct D'" "set D' \<subseteq> set D \<union> set cs"
      by auto
    ultimately show ?thesis by auto
  next
    case False
    with Cons.prems have "fold pushNew (c # cs) (C @ D) = fold pushNew cs (C @ (D @ [c]))"
      by (simp add: pushNew_def)
    moreover from Cons.IH [of "D @ [c]"] Cons.prems False
    obtain D' where "fold pushNew cs (C @ (D @ [c])) = C @ D'" "distinct D'"
      "set D' \<subseteq> set (D @ [c]) \<union> set cs"
      by auto
    ultimately show ?thesis by auto
  qed
qed

lemma fold_remove1_append:
  "set cs \<inter> set C = {} \<Longrightarrow> fold remove1 cs (C @ D) = C @ fold remove1 cs D"
  by (induction cs arbitrary: D) (auto simp: remove1_append)

lemma fold_remove1_all:
  "distinct D \<Longrightarrow> set D \<subseteq> set cs \<Longrightarrow> fold remove1 cs D = []"
proof (induction cs arbitrary: D)
  case Nil
  then show ?case by simp
next
  case (Cons c cs)
  have "distinct (remove1 c D)" using Cons.prems by simp
  moreover have "set (remove1 c D) \<subseteq> set cs" using Cons.prems by auto
  ultimately show ?case using Cons.IH by simp
qed

lemma undo_apply_disjoint:
  assumes "set cs \<inter> set C = {}"
  shows "fold remove1 cs (fold pushNew cs C) = C"
proof -
  from fold_pushNew_append [OF assms, of "[]"]
  obtain D' where D: "fold pushNew cs C = C @ D'" "distinct D'" "set D' \<subseteq> set cs"
    by auto
  show ?thesis
    by (simp add: D fold_remove1_append [OF assms] fold_remove1_all)
qed

lemma mset_fold_remove1: "mset (fold remove1 cs X) = mset X - mset cs"
  by (induction cs arbitrary: X) (simp_all add: diff_diff_add_mset ac_simps)

lemma count_fold_pushNew:
  "c \<in> set X \<Longrightarrow> count (mset (fold pushNew cs X)) c = count (mset X) c"
  by (induction cs arbitrary: X) (auto simp: pushNew_def)

lemma undo_apply_overlap:
  assumes "c \<in> set cs" "c \<in> set C"
  shows "fold remove1 cs (fold pushNew cs C) \<noteq> C"
proof
  assume eq: "fold remove1 cs (fold pushNew cs C) = C"
  have "count (mset (fold remove1 cs (fold pushNew cs C))) c
          = count (mset C) c - count (mset cs) c"
    using assms by (simp add: mset_fold_remove1 count_fold_pushNew)
  then have "count (mset C) c = count (mset C) c - count (mset cs) c"
    by (simp add: eq)
  moreover have "0 < count (mset cs) c" and "0 < count (mset C) c"
    using assms by simp_all
  ultimately show False by arith
qed

lemma undo_apply_iff:
  "fold remove1 cs (fold pushNew cs C) = C \<longleftrightarrow> set cs \<inter> set C = {}"
proof
  assume "fold remove1 cs (fold pushNew cs C) = C"
  then show "set cs \<inter> set C = {}"
    using undo_apply_overlap [of _ cs C] by auto
next
  assume "set cs \<inter> set C = {}"
  then show "fold remove1 cs (fold pushNew cs C) = C" by (rule undo_apply_disjoint)
qed

section \<open>Category policy and equivalence check: lemmas\<close>

lemma findIndex_range: "findIndex P xs = - 1 \<or> 0 \<le> findIndex P xs"
  by (induction xs) (auto simp: Let_def)

lemma findIndex_found: "findIndex P xs \<noteq> - 1 \<longleftrightarrow> (\<exists>x \<in> set xs. P x)"
proof (induction xs)
  case Nil
  show ?case by simp
next
  case (Cons x xs)
  have "findIndex P xs + 1 \<noteq> - 1"
    using findIndex_range [of P xs] by auto
  then show ?case using Cons.IH by (auto simp: Let_def)
qed

lemma doesIndexerSpecificRuleApply_iff:
  "doesIndexerSpecificRuleApply rules sn indexer \<longleftrightarrow> (\<exists>r \<in> set rules. ruleMatches sn indexer r)"
proof -
  have found: "(- 1 \<noteq> findIndex P rules) = (\<exists>x \<in> set rules. P x)"
    for P :: "IndexSpecificRule \<Rightarrow> bool"
    using findIndex_found [of P rules] by auto
  show ?thesis
    unfolding doesIndexerSpecificRuleApply_def ruleMatches_def found by auto
qed

lemma shouldAdd_iff:
  "shouldAdd rules s indexer \<longleftrightarrow>
     set (categories_J indexer) \<inter> set (categories s) \<noteq> {}
     \<or> (\<exists>r \<in> set rules. ruleMatches (serviceName s) indexer r)"
  by (auto simp: shouldAdd_def doesIndexerSpecificRuleApply_iff list_ex_iff)

lemma undo_categories:
  "fst (undoIndexerSpecificConfiguration rules sn indexer C A)
     = fold remove1 (namedCategories rules sn indexer) C"
  by (simp add: undoIndexerSpecificConfiguration_def undo_fst)

lemma shouldUpdate_fst:
  "fst (shouldUpdate rules compare s current indexer) \<longleftrightarrow>
     \<not> compare current indexer
     \<or> set (fst (undoIndexerSpecificConfiguration rules (serviceName s) indexer
                   (categories_I current) []))
         \<noteq> set (categories s) \<inter> set (categories_J indexer)"
  by (auto simp: shouldUpdate_def containsAllWantedCategories_def arrayEquals_def Let_def)

lemma shouldUpdate_snd:
  "snd (shouldUpdate rules compare s current indexer) =
     (if compare current indexer
      then current\<lparr>categories_I :=
             fold remove1 (namedCategories rules (serviceName s) indexer) (categories_I current)\<rparr>
      else current)"
  by (simp add: shouldUpdate_def containsAllWantedCategories_def Let_def undo_categories)

lemma fold_remove1_disjoint:
  "set cs \<inter> set X = {} \<Longrightarrow> fold remove1 cs X = X"
  by (induction cs arbitrary: X) (auto simp: remove1_idem)

lemma fold_remove1_overlap:
  assumes "c \<in> set cs" "c \<in> set X"
  shows "fold remove1 cs X \<noteq> X"
proof
  assume eq: "fold remove1 cs X = X"
  have "count (mset (fold remove1 cs X)) c = count (mset X) c - count (mset cs) c"
    by (simp add: mset_fold_remove1)
  then have "count (mset X) c = count (mset X) c - count (mset cs) c"
    by (simp add: eq)
  moreover have "0 < count (mset cs) c" and "0 < count (mset X) c"
    using assms by simp_all
  ultimately show False by arith
qed

lemma fold_remove1_id_iff: "fold remove1 cs X = X \<longleftrightarrow> set cs \<inter> set X = {}"
proof
  assume "fold remove1 cs X = X"
  then show "set cs \<inter> set X = {}"
    using fold_remove1_overlap [of _ cs X] by auto
next
  assume "set cs \<inter> set X = {}"
  then show "fold remove1 cs X = X" by (rule fold_remove1_disjoint)
qed

lemma set_fold_remove1_mset:
  "mset X' = mset X \<Longrightarrow> set (fold remove1 cs X') = set (fold remove1 cs X)"
proof -
  assume "mset X' = mset X"
  then have "mset (fold remove1 cs X') = mset (fold remove1 cs X)"
    by (simp add: mset_fold_remove1)
  then show ?thesis by (rule mset_eq_setD)
qed

lemma indexer_categories_eq:
  "(current\<lparr>categories_I := X\<rparr> = current) \<longleftrightarrow> X = categories_I current"
  by (cases current) auto

lemma shouldUpdate_changes:
  "snd (shouldUpdate rules compare s current indexer) \<noteq> current \<longleftrightarrow>
     compare current indexer
     \<and> set (namedCategories rules (serviceName s) indexer) \<inter> set (categories_I current) \<noteq> {}"
  by (simp add: shouldUpdate_snd indexer_categories_eq fold_remove1_id_iff)

section \<open>The differ: lemmas\<close>

lemma find_first_key:
  "distinct (map f xs) \<Longrightarrow> x \<in> set xs \<Longrightarrow> find (\<lambda>y. f y = f x) xs = Some x"
  by (induction xs) (auto simp: image_iff)

lemma find_key_Some:
  "i \<in> f ` set xs \<Longrightarrow> \<exists>x. find (\<lambda>y. f y = i) xs = Some x \<and> x \<in> set xs \<and> f x = i"
  by (induction xs) auto

lemma find_split:
  "find P (xs @ y # ys) = (case find P xs of Some x \<Rightarrow> Some x | None \<Rightarrow> if P y then Some y else find P ys)"
  by (induction xs) auto

lemma shouldBeAddedIndexers_exact:
  "set diff \<subseteq> id_J ` set js \<Longrightarrow>
   shouldBeAddedIndexers rules s js diff =
     Inr (filter (shouldAdd rules s) (map (\<lambda>i. the (find (\<lambda>j. id_J j = i) js)) diff))"
proof (induction diff)
  case Nil
  show ?case by simp
next
  case (Cons i diff)
  from Cons.prems obtain j where "find (\<lambda>j. id_J j = i) js = Some j"
    using find_key_Some [of i id_J js] by auto
  with Cons show ?case by simp
qed

lemma serviceIdList_iff:
  "i \<in> set (serviceIdList s) \<longleftrightarrow> (\<exists>x \<in> set (indexers s). id_I x = Some i)"
  by (force simp: serviceIdList_def filterNotEmpty_def notEmpty_def image_iff)

lemma serviceIdList_cong:
  "map id_I (indexers s') = map id_I (indexers s) \<Longrightarrow> serviceIdList s' = serviceIdList s"
  by (simp add: serviceIdList_def)

lemma shouldUpdate_identity:
  "shouldUpdate rules compare s e j = (b, e') \<Longrightarrow> id_I e' = id_I e \<and> appId e' = appId e"
  using shouldUpdate_snd [of rules compare s e j] by (auto split: if_splits)

lemma shouldUpdate_cong:
  "serviceName s' = serviceName s \<Longrightarrow> categories s' = categories s \<Longrightarrow>
   shouldUpdate rules compare s' = shouldUpdate rules compare s"
  by (intro ext) (simp add: shouldUpdate_def containsAllWantedCategories_def)

lemma extract_existing:
  assumes "i \<in> set (serviceIdList s)"
  obtains before e behind where
    "List.extract (\<lambda>x. id_I x = Some i) (indexers s) = Some (before, e, behind)"
    "indexers s = before @ e # behind" "id_I e = Some i"
    "\<forall>x \<in> set before. id_I x \<noteq> Some i"
proof -
  from assms have "List.extract (\<lambda>x. id_I x = Some i) (indexers s) \<noteq> None"
    by (simp add: extract_None_iff serviceIdList_iff)
  then obtain before e behind where
    ex: "List.extract (\<lambda>x. id_I x = Some i) (indexers s) = Some (before, e, behind)"
    by auto
  then have "indexers s = before @ e # behind" "id_I e = Some i"
    "\<forall>x \<in> set before. id_I x \<noteq> Some i"
    by (auto simp: extract_Some_iff)
  with ex show thesis by (rule that)
qed

lemma existingFor_split:
  "\<forall>x \<in> set before. id_I x \<noteq> Some i \<Longrightarrow>
   find (\<lambda>x. id_I x = Some i) (before @ e # behind) =
     (if id_I e = Some i then Some e else find (\<lambda>x. id_I x = Some i) behind)"
proof -
  assume "\<forall>x \<in> set before. id_I x \<noteq> Some i"
  then have "find (\<lambda>x. id_I x = Some i) before = None"
    by (simp add: find_None_iff)
  then show ?thesis by (simp add: find_split)
qed

text \<open>One step of the update loop, spelled out.\<close>

lemma shouldBeUpdatedIndexers_step:
  assumes j: "find (\<lambda>j. id_J j = i) js = Some j"
    and ex: "List.extract (\<lambda>x. id_I x = Some i) (indexers s) = Some (before, e, behind)"
    and su: "shouldUpdate rules compare s e j = (b, e')"
    and rec: "shouldBeUpdatedIndexers rules compare (s\<lparr>indexers := before @ e' # behind\<rparr>) js same
                = Inr (rest, s')"
  shows "shouldBeUpdatedIndexers rules compare s js (i # same)
           = Inr (if b then j # rest else rest, s')"
  using assms by simp

lemma shouldBeUpdatedIndexers_total:
  "set same \<subseteq> id_J ` set js \<Longrightarrow> set same \<subseteq> set (serviceIdList s) \<Longrightarrow>
   \<exists>upd s'. shouldBeUpdatedIndexers rules compare s js same = Inr (upd, s')
     \<and> serviceName s' = serviceName s \<and> categories s' = categories s
     \<and> map id_I (indexers s') = map id_I (indexers s)
     \<and> map appId (indexers s') = map appId (indexers s)
     \<and> set upd \<subseteq> set js \<and> id_J ` set upd \<subseteq> set same"
proof (induction same arbitrary: s)
  case Nil
  show ?case by simp
next
  case (Cons i same)
  from Cons.prems obtain j where j: "find (\<lambda>j. id_J j = i) js = Some j" "j \<in> set js" "id_J j = i"
    using find_key_Some [of i id_J js] by auto
  from Cons.prems have "i \<in> set (serviceIdList s)" by simp
  then obtain before e behind where
    ex: "List.extract (\<lambda>x. id_I x = Some i) (indexers s) = Some (before, e, behind)"
    and split: "indexers s = before @ e # behind"
    by (rule extract_existing)
  obtain b e' where su: "shouldUpdate rules compare s e j = (b, e')"
    by (cases "shouldUpdate rules compare s e j")
  then have same_id: "id_I e' = id_I e" "appId e' = appId e"
    using shouldUpdate_identity by blast+
  let ?s1 = "s\<lparr>indexers := before @ e' # behind\<rparr>"
  have ids: "map id_I (indexers ?s1) = map id_I (indexers s)"
    and apps: "map appId (indexers ?s1) = map appId (indexers s)"
    by (simp_all add: split same_id)
  have "set same \<subseteq> set (serviceIdList ?s1)"
    using Cons.prems serviceIdList_cong [OF ids] by simp
  with Cons.IH [of ?s1] Cons.prems
  obtain rest s' where rec: "shouldBeUpdatedIndexers rules compare ?s1 js same = Inr (rest, s')"
    and frame: "serviceName s' = serviceName ?s1" "categories s' = categories ?s1"
      "map id_I (indexers s') = map id_I (indexers ?s1)"
      "map appId (indexers s') = map appId (indexers ?s1)"
      "set rest \<subseteq> set js" "id_J ` set rest \<subseteq> set same"
    by auto
  have "shouldBeUpdatedIndexers rules compare s js (i # same)
          = Inr (if b then j # rest else rest, s')"
    using j(1) ex su rec by (rule shouldBeUpdatedIndexers_step)
  moreover have "set (if b then j # rest else rest) \<subseteq> set js"
    using frame j by auto
  moreover have "id_J ` set (if b then j # rest else rest) \<subseteq> set (i # same)"
    using frame j by auto
  ultimately show ?case using frame ids apps by simp
qed

lemma shouldBeUpdatedIndexers_exact:
  "distinct same \<Longrightarrow> set same \<subseteq> id_J ` set js \<Longrightarrow> set same \<subseteq> set (serviceIdList s) \<Longrightarrow>
   shouldBeUpdatedIndexers rules compare s js same = Inr (upd, s') \<Longrightarrow>
   upd = filter (needsUpdate rules compare s) (map (\<lambda>i. the (find (\<lambda>j. id_J j = i) js)) same)"
proof (induction same arbitrary: s upd s')
  case Nil
  then show ?case by simp
next
  case (Cons i same)
  let ?src = "\<lambda>i. the (find (\<lambda>j. id_J j = i) js)"
  have src_id: "id_J (?src k) = k" if "k \<in> id_J ` set js" for k
    using find_key_Some [OF that] by auto
  from Cons.prems obtain j where j: "find (\<lambda>j. id_J j = i) js = Some j" "id_J j = i"
    using find_key_Some [of i id_J js] by auto
  from Cons.prems have "i \<in> set (serviceIdList s)" by simp
  then obtain before e behind where
    ex: "List.extract (\<lambda>x. id_I x = Some i) (indexers s) = Some (before, e, behind)"
    and split: "indexers s = before @ e # behind" and e: "id_I e = Some i"
    and before: "\<forall>x \<in> set before. id_I x \<noteq> Some i"
    by (rule extract_existing)
  obtain b e' where su: "shouldUpdate rules compare s e j = (b, e')"
    by (cases "shouldUpdate rules compare s e j")
  then have same_id: "id_I e' = id_I e"
    using shouldUpdate_identity by blast
  let ?s1 = "s\<lparr>indexers := before @ e' # behind\<rparr>"
  have ids: "map id_I (indexers ?s1) = map id_I (indexers s)"
    by (simp add: split same_id)
  have sub1: "set same \<subseteq> set (serviceIdList ?s1)"
    using Cons.prems serviceIdList_cong [OF ids] by simp
  from Cons.prems have sub2: "set same \<subseteq> id_J ` set js" by simp
  from shouldBeUpdatedIndexers_total [OF sub2 sub1, of rules compare]
  obtain rest s1' where rec: "shouldBeUpdatedIndexers rules compare ?s1 js same = Inr (rest, s1')"
    by auto
  have step: "shouldBeUpdatedIndexers rules compare s js (i # same)
          = Inr (if b then j # rest else rest, s1')"
    using j(1) ex su rec by (rule shouldBeUpdatedIndexers_step)
  with Cons.prems have upd: "upd = (if b then j # rest else rest)" by simp
  have rest: "rest = filter (needsUpdate rules compare ?s1) (map ?src same)"
    using Cons.IH [OF _ sub2 sub1 rec] Cons.prems by simp
  have here: "needsUpdate rules compare s j = b"
    using existingFor_split [OF before, of e behind] e su
    by (simp add: needsUpdate_def existingFor_def split j)
  have elsewhere: "needsUpdate rules compare ?s1 (?src k) = needsUpdate rules compare s (?src k)"
    if "k \<in> set same" for k
  proof -
    from that Cons.prems have "k \<noteq> i" and "k \<in> id_J ` set js" by auto
    then have "id_J (?src k) \<noteq> i" by (simp add: src_id)
    then have found: "existingFor ?s1 (id_J (?src k)) = existingFor s (id_J (?src k))"
      by (simp add: existingFor_def split find_split e same_id)
    have verdict: "shouldUpdate rules compare ?s1 = shouldUpdate rules compare s"
      by (rule shouldUpdate_cong) simp_all
    show ?thesis by (simp only: needsUpdate_def found verdict)
  qed
  have "filter (needsUpdate rules compare ?s1) (map ?src same)
          = filter (needsUpdate rules compare s) (map ?src same)"
    by (rule filter_cong) (auto simp: elsewhere)
  with rest upd here j show ?case by simp
qed

lemma source_of_ids:
  assumes "distinct (map id_J js)"
  shows "map (\<lambda>i. the (find (\<lambda>j. id_J j = i) js)) (filter P (map id_J js))
           = filter (\<lambda>j. P (id_J j)) js"
proof -
  have "map ((\<lambda>i. the (find (\<lambda>j. id_J j = i) js)) \<circ> id_J) (filter (P \<circ> id_J) js)
          = filter (P \<circ> id_J) js"
    by (rule map_idI) (simp add: find_first_key [OF assms])
  then show ?thesis by (simp add: filter_map comp_def)
qed

lemma checkDifferences_total:
  "\<exists>d. checkDifferences rules compare s js = Inr d
     \<and> add d = filter (shouldAdd rules s)
         (map (\<lambda>i. the (find (\<lambda>j. id_J j = i) js))
            (filter (\<lambda>i. i \<notin> set (serviceIdList s)) (map id_J js)))
     \<and> shouldBeUpdatedIndexers rules compare s js
          (filter (\<lambda>i. i \<in> set (serviceIdList s)) (map id_J js)) = Inr (update d, after d)
     \<and> notInJackett d = filter (\<lambda>i. i \<notin> id_J ` set js) (serviceIdList s)"
proof -
  let ?same = "filter (\<lambda>i. i \<in> set (serviceIdList s)) (map id_J js)"
  have "set ?same \<subseteq> id_J ` set js" and "set ?same \<subseteq> set (serviceIdList s)" by auto
  from shouldBeUpdatedIndexers_total [OF this, of rules compare]
  obtain upd s' where "shouldBeUpdatedIndexers rules compare s js ?same = Inr (upd, s')"
    by auto
  moreover have "set (filter (\<lambda>i. i \<notin> set (serviceIdList s)) (map id_J js)) \<subseteq> id_J ` set js"
    by auto
  ultimately show ?thesis
    by (simp add: checkDifferences_def shouldBeAddedIndexers_exact Let_def)
qed

lemma checkDifferences_exact:
  assumes "distinct (map id_J js)"
  shows "\<exists>d. checkDifferences rules compare s js = Inr d
     \<and> add d = filter (\<lambda>indexer. id_J indexer \<notin> set (serviceIdList s) \<and> shouldAdd rules s indexer) js
     \<and> update d = filter (\<lambda>indexer. id_J indexer \<in> set (serviceIdList s)
                                  \<and> needsUpdate rules compare s indexer) js"
proof -
  let ?src = "\<lambda>i. the (find (\<lambda>j. id_J j = i) js)"
  let ?same = "filter (\<lambda>i. i \<in> set (serviceIdList s)) (map id_J js)"
  from checkDifferences_total [of rules compare s js]
  obtain d where d: "checkDifferences rules compare s js = Inr d"
    and a: "add d = filter (shouldAdd rules s)
               (map ?src (filter (\<lambda>i. i \<notin> set (serviceIdList s)) (map id_J js)))"
    and u: "shouldBeUpdatedIndexers rules compare s js ?same = Inr (update d, after d)"
    by blast
  have "add d = filter (\<lambda>indexer. id_J indexer \<notin> set (serviceIdList s) \<and> shouldAdd rules s indexer) js"
    by (simp add: a source_of_ids [OF assms])
  moreover have "distinct ?same" using assms by simp
  then have "update d = filter (needsUpdate rules compare s) (map ?src ?same)"
    by (rule shouldBeUpdatedIndexers_exact [OF _ _ _ u]) auto
  then have "update d = filter (\<lambda>indexer. id_J indexer \<in> set (serviceIdList s)
                                  \<and> needsUpdate rules compare s indexer) js"
    by (simp add: source_of_ids [OF assms])
  ultimately show ?thesis using d by simp
qed

lemma checkDifferences_members:
  "\<exists>d. checkDifferences rules compare s js = Inr d
     \<and> set (add d) \<subseteq> set js \<and> set (update d) \<subseteq> set js
     \<and> id_J ` set (update d) \<subseteq> set (serviceIdList s)
     \<and> id_J ` set (add d) \<inter> set (serviceIdList s) = {}
     \<and> notInJackett d = filter (\<lambda>i. i \<notin> id_J ` set js) (serviceIdList s)
     \<and> serviceName (after d) = serviceName s \<and> categories (after d) = categories s
     \<and> map id_I (indexers (after d)) = map id_I (indexers s)
     \<and> map appId (indexers (after d)) = map appId (indexers s)"
proof -
  let ?src = "\<lambda>i. the (find (\<lambda>j. id_J j = i) js)"
  let ?same = "filter (\<lambda>i. i \<in> set (serviceIdList s)) (map id_J js)"
  let ?diff = "filter (\<lambda>i. i \<notin> set (serviceIdList s)) (map id_J js)"
  from checkDifferences_total [of rules compare s js]
  obtain d where d: "checkDifferences rules compare s js = Inr d"
    and a: "add d = filter (shouldAdd rules s) (map ?src ?diff)"
    and u: "shouldBeUpdatedIndexers rules compare s js ?same = Inr (update d, after d)"
    and n: "notInJackett d = filter (\<lambda>i. i \<notin> id_J ` set js) (serviceIdList s)"
    by blast
  have sub: "set ?same \<subseteq> id_J ` set js" "set ?same \<subseteq> set (serviceIdList s)" by auto
  from shouldBeUpdatedIndexers_total [OF sub, of rules compare] u
  have frame: "serviceName (after d) = serviceName s" "categories (after d) = categories s"
    "map id_I (indexers (after d)) = map id_I (indexers s)"
    "map appId (indexers (after d)) = map appId (indexers s)"
    "set (update d) \<subseteq> set js" "id_J ` set (update d) \<subseteq> set ?same"
    by auto
  have src: "?src i \<in> set js \<and> id_J (?src i) = i" if "i \<in> id_J ` set js" for i
    using find_key_Some [OF that] by auto
  have added: "x \<in> set js \<and> id_J x \<notin> set (serviceIdList s)" if "x \<in> set (add d)" for x
  proof -
    from that obtain i where "i \<in> set ?diff" and "x = ?src i" by (auto simp: a)
    moreover from this have "i \<in> id_J ` set js" and "i \<notin> set (serviceIdList s)" by auto
    ultimately show ?thesis using src [of i] by simp
  qed
  then have "set (add d) \<subseteq> set js" and "id_J ` set (add d) \<inter> set (serviceIdList s) = {}"
    by auto
  with d n frame show ?thesis by auto
qed

lemma find_same_identity:
  "map id_I xs' = map id_I xs \<Longrightarrow> map appId xs' = map appId xs \<Longrightarrow>
   find (\<lambda>e. id_I e = t) xs = Some e \<Longrightarrow>
   \<exists>e'. find (\<lambda>e. id_I e = t) xs' = Some e' \<and> appId e' = appId e"
proof (induction xs arbitrary: xs')
  case Nil
  then show ?case by simp
next
  case (Cons x xs)
  then obtain x' ys where xs': "xs' = x' # ys" by (cases xs') auto
  with Cons.prems have "id_I x' = id_I x" "appId x' = appId x"
    "map id_I ys = map id_I xs" "map appId ys = map appId xs"
    by simp_all
  with Cons.IH [of ys] Cons.prems(3) show ?case
    by (auto simp: xs' split: if_splits)
qed

lemma updateRequest_found:
  assumes "id_J indexer \<in> set (serviceIdList s)"
    and "map id_I (indexers s') = map id_I (indexers s)"
    and "map appId (indexers s') = map appId (indexers s)"
  shows "\<exists>existing. existingFor s (id_J indexer) = Some existing
           \<and> updateRequest s' indexer = Inr (Put (appId existing) indexer)"
proof -
  from assms(1) have "find (\<lambda>e. id_I e = Some (id_J indexer)) (indexers s) \<noteq> None"
    by (auto simp: find_None_iff serviceIdList_iff)
  then obtain e where e: "find (\<lambda>e. id_I e = Some (id_J indexer)) (indexers s) = Some e"
    by auto
  from find_same_identity [OF assms(2,3) e]
  obtain e' where "find (\<lambda>e. id_I e = Some (id_J indexer)) (indexers s') = Some e'"
    and "appId e' = appId e"
    by auto
  with e show ?thesis by (simp add: existingFor_def updateRequest_def)
qed

section \<open>The driver: lemmas\<close>

lemma Promise_all_fulfilled: "(\<exists>vs. Promise_all ps = Inr vs) \<longleftrightarrow> \<not> list_ex isl ps"
  by (induction ps rule: Promise_all.induct) (auto split: sum.splits)

lemma Promise_all_rejected: "Promise_all ps = Inl e \<Longrightarrow> Inl e \<in> set ps"
  by (induction ps rule: Promise_all.induct) (auto split: sum.splits)

lemma two_batches:
  assumes "(case Promise_all A of
              Inl e \<Rightarrow> Inl e
            | Inr a \<Rightarrow> (case Promise_all U of Inl e \<Rightarrow> Inl e | Inr u \<Rightarrow> Inr ())) = r"
  shows "(r = Inr () \<longleftrightarrow> \<not> list_ex isl (A @ U)) \<and> (\<forall>e. r = Inl e \<longrightarrow> Inl e \<in> set (A @ U))"
proof (cases "Promise_all A")
  case (Inl e)
  then have "Inl e \<in> set A" by (rule Promise_all_rejected)
  moreover have "list_ex isl A"
    using Inl Promise_all_fulfilled [of A] by auto
  ultimately show ?thesis using assms Inl by auto
next
  case a: (Inr a)
  then have clean: "\<not> list_ex isl A"
    using Promise_all_fulfilled [of A] by auto
  show ?thesis
  proof (cases "Promise_all U")
    case (Inl e)
    then have "Inl e \<in> set U" by (rule Promise_all_rejected)
    moreover have "list_ex isl U"
      using Inl Promise_all_fulfilled [of U] by auto
    ultimately show ?thesis using assms a Inl by auto
  next
    case (Inr u)
    then have "\<not> list_ex isl U"
      using Promise_all_fulfilled [of U] by auto
    with clean show ?thesis using assms a Inr by auto
  qed
qed

text \<open>The request that \<open>sync\<close> makes of an entry of the update list.\<close>

lemma sync_outcome:
  "\<exists>d. checkDifferences rules compare s js = Inr d
     \<and> requests (sync rules compare respond s js)
         = map Post (add d)
           @ map (\<lambda>indexer. Put (appId (the (existingFor s (id_J indexer)))) indexer) (update d)
     \<and> settled (sync rules compare respond s js)
         = map (\<lambda>q. handleRequest (respond q)) (requests (sync rules compare respond s js))
     \<and> (result (sync rules compare respond s js) = Inr ()
          \<longleftrightarrow> \<not> list_ex isl (settled (sync rules compare respond s js)))
     \<and> (\<forall>e. result (sync rules compare respond s js) = Inl e
            \<longrightarrow> Inl e \<in> set (settled (sync rules compare respond s js)))"
proof -
  from checkDifferences_members [of rules compare s js]
  obtain d where d: "checkDifferences rules compare s js = Inr d"
    and u: "id_J ` set (update d) \<subseteq> set (serviceIdList s)"
    and frame: "map id_I (indexers (after d)) = map id_I (indexers s)"
      "map appId (indexers (after d)) = map appId (indexers s)"
    by blast
  let ?put = "\<lambda>indexer. Put (appId (the (existingFor s (id_J indexer)))) indexer"
  let ?A = "map (\<lambda>indexer. handleRequest (respond (Post indexer))) (add d)"
  let ?U = "map (\<lambda>indexer. handleRequest (respond (?put indexer))) (update d)"
  have found: "updateRequest (after d) indexer = Inr (?put indexer)" if "indexer \<in> set (update d)"
    for indexer
  proof -
    from that u have "id_J indexer \<in> set (serviceIdList s)" by auto
    from updateRequest_found [OF this frame] show ?thesis by auto
  qed
  have puts_snd: "map (\<lambda>indexer.
                        snd (case updateRequest (after d) indexer of
                               Inl e \<Rightarrow> (None, Inl e)
                             | Inr q \<Rightarrow> (Some q, handleRequest (respond q)))) (update d)
              = ?U"
    by (intro map_cong) (simp_all add: found)
  from found have puts: "map (\<lambda>indexer.
                        case updateRequest (after d) indexer of
                          Inl e \<Rightarrow> (None, Inl e)
                        | Inr q \<Rightarrow> (Some q, handleRequest (respond q))) (update d)
              = map (\<lambda>indexer. (Some (?put indexer), handleRequest (respond (?put indexer))))
                  (update d)"
    by (intro map_cong) simp_all
  have reqs: "requests (sync rules compare respond s js) = map Post (add d) @ map ?put (update d)"
    by (simp add: sync_def d Let_def puts List.map_filter_def comp_def)
  have sett: "settled (sync rules compare respond s js) = ?A @ ?U"
    by (simp add: sync_def d Let_def puts comp_def)
  have res: "(case Promise_all ?A of
                Inl e \<Rightarrow> Inl e
              | Inr a \<Rightarrow> (case Promise_all ?U of Inl e \<Rightarrow> Inl e | Inr u \<Rightarrow> Inr ()))
             = result (sync rules compare respond s js)"
    by (simp add: sync_def d Let_def comp_def puts_snd cong: sum.case_cong)
  from two_batches [OF res]
  have "(result (sync rules compare respond s js) = Inr ()
          \<longleftrightarrow> \<not> list_ex isl (settled (sync rules compare respond s js)))"
    and "\<forall>e. result (sync rules compare respond s js) = Inl e
            \<longrightarrow> Inl e \<in> set (settled (sync rules compare respond s js))"
    unfolding sett by blast+
  moreover have "settled (sync rules compare respond s js)
         = map (\<lambda>q. handleRequest (respond q)) (requests (sync rules compare respond s js))"
    by (simp add: sett reqs comp_def)
  ultimately show ?thesis using d reqs by simp
qed

text \<open>The definitions that an evaluation on the concrete inputs unfolds.\<close>

lemmas example_defs =
  rule_5030_def rule_forced_def source_1_def source_2_def source_3_def source_4_def
  catalog_def existing_1_def existing_2_def existing_5_def existing_anime_def sonarr_def
  radarr_def source_swapped_def existing_swapped_def identical_def

lemmas policy_defs =
  serviceIdList_def filterNotEmpty_def notEmpty_def shouldAdd_def
  doesIndexerSpecificRuleApply_def needsUpdate_def existingFor_def shouldUpdate_def
  containsAllWantedCategories_def undoIndexerSpecificConfiguration_def arrayEquals_def

text \<open>The differ and the driver on the concrete catalog.\<close>

lemma checkDifferences_example:
  "checkDifferences [rule_5030, rule_forced] identical sonarr catalog =
     Inr \<lparr>add = [source_3], update = [source_2], notInJackett = [5],
          after = sonarr\<lparr>indexers := [existing_1\<lparr>categories_I := [2000]\<rparr>, existing_2, existing_5]\<rparr>\<rparr>"
  by (simp add: checkDifferences_def example_defs policy_defs Let_def
        extract_Nil_code extract_Cons_code)

















section \<open>The claims\<close>

text \<open>
  C7. For every category collection, consumer and indexer, applying the same override
  rules twice with \<open>indexerSpecificConfiguration\<close> yields the same collections as
  applying them once.
\<close>

theorem apply_idempotent:
  "(case indexerSpecificConfiguration rules sn indexer C A of
      (C', A') \<Rightarrow> indexerSpecificConfiguration rules sn indexer C' A')
   = indexerSpecificConfiguration rules sn indexer C A"
proof -
  obtain C' A' where once: "fold (applyRule sn indexer) rules (C, A) = (C', A')"
    by (cases "fold (applyRule sn indexer) rules (C, A)")
  have C': "C' = fold pushNew (namedCategories rules sn indexer) C"
    using apply_fst [of sn indexer rules C A] by (simp add: once)
  have A': "A' = fold pushNew (namedAnimeCategories rules sn indexer) A"
    using apply_snd [of sn indexer rules C A] by (simp add: once)
  have "fst (fold (applyRule sn indexer) rules (C', A')) = C'"
    by (simp add: apply_fst C' pushNew_idem)
  moreover have "snd (fold (applyRule sn indexer) rules (C', A')) = A'"
    by (simp add: apply_snd A' pushNew_idem)
  ultimately have "fold (applyRule sn indexer) rules (C', A') = (C', A')"
    by (simp add: prod_eq_iff)
  then show ?thesis
    by (simp add: indexerSpecificConfiguration_def once)
qed

theorem apply_idempotent_witness:
  "(case indexerSpecificConfiguration [rule_5030] SONARR source_1 [2000] [] of
      (C', A') \<Rightarrow> indexerSpecificConfiguration [rule_5030] SONARR source_1 C' A')
   = ([2000, 5030], [5070])"
  using apply_idempotent [of "[rule_5030]" SONARR source_1 "[2000]" "[]"]
  by (simp add: indexerSpecificConfiguration_def rule_5030_def source_1_def)

text \<open>
  C1, as amended. Applying the override rules to \<open>C\<close> and \<open>A\<close> and then reversing them
  with the same rule table, consumer and indexer yields the original \<open>C\<close> and \<open>A\<close>
  exactly when no category named by a matching rule already occurs in \<open>C\<close> and no anime
  category named by a matching rule already occurs in \<open>A\<close>.
\<close>

theorem undo_apply_exact:
  "(case indexerSpecificConfiguration rules sn indexer C A of
      (C', A') \<Rightarrow> undoIndexerSpecificConfiguration rules sn indexer C' A') = (C, A)
   \<longleftrightarrow> set (namedCategories rules sn indexer) \<inter> set C = {}
       \<and> set (namedAnimeCategories rules sn indexer) \<inter> set A = {}"
proof -
  obtain C' A' where once: "fold (applyRule sn indexer) rules (C, A) = (C', A')"
    by (cases "fold (applyRule sn indexer) rules (C, A)")
  have C': "C' = fold pushNew (namedCategories rules sn indexer) C"
    using apply_fst [of sn indexer rules C A] by (simp add: once)
  have A': "A' = fold pushNew (namedAnimeCategories rules sn indexer) A"
    using apply_snd [of sn indexer rules C A] by (simp add: once)
  have "fold (undoRule sn indexer) rules (C', A') = (C, A)
        \<longleftrightarrow> fold remove1 (namedCategories rules sn indexer) C' = C
            \<and> fold remove1 (namedAnimeCategories rules sn indexer) A' = A"
    by (simp add: prod_eq_iff undo_fst undo_snd)
  then show ?thesis
    by (simp add: indexerSpecificConfiguration_def undoIndexerSpecificConfiguration_def
          once C' A' undo_apply_iff)
qed

theorem undo_apply_exact_witness:
  "(case indexerSpecificConfiguration [rule_5030] SONARR source_1 [2000] [] of
      (C', A') \<Rightarrow> undoIndexerSpecificConfiguration [rule_5030] SONARR source_1 C' A')
   = ([2000], [])"
  using undo_apply_exact [of "[rule_5030]" SONARR source_1 "[2000]" "[]"]
  by (simp add: namedCategories_def namedAnimeCategories_def ruleMatches_def
        rule_5030_def source_1_def)

text \<open>
  C1, as stated, fails: category 5030 is already in the collection, so the application
  adds nothing and the reversal removes it.
\<close>

theorem undo_apply_counterexample:
  "(case indexerSpecificConfiguration [rule_5030] SONARR source_1 [2000, 5030] [] of
      (C', A') \<Rightarrow> undoIndexerSpecificConfiguration [rule_5030] SONARR source_1 C' A')
   = ([2000], [])
   \<and> ([2000], []) \<noteq> ([2000, 5030 :: int], [] :: int list)"
  by (simp add: indexerSpecificConfiguration_def undoIndexerSpecificConfiguration_def
        rule_5030_def source_1_def)

text \<open>
  C2. For a source catalog whose indexers are uniquely identified by their ids (the
  data model's invariant on one fetch) and every consumer state, \<open>checkDifferences\<close>
  returns an add list that holds exactly the source indexers whose id is absent from the
  consumer's current indexer ids and for which \<open>shouldAdd\<close> holds, and an update list
  that holds exactly the source indexers whose id is among the consumer's current
  indexer ids and for which \<open>shouldUpdate\<close>, asked of the consumer's existing indexer
  with that id, holds. Both lists are in the order of the catalog.
\<close>

theorem checkDifferences_lists:
  assumes "distinct (map id_J jackettIndexers)"
  shows "\<exists>d. checkDifferences rules compare s jackettIndexers = Inr d
     \<and> add d = filter (\<lambda>indexer. id_J indexer \<notin> set (serviceIdList s)
                               \<and> shouldAdd rules s indexer) jackettIndexers
     \<and> update d = filter (\<lambda>indexer. id_J indexer \<in> set (serviceIdList s)
                                  \<and> needsUpdate rules compare s indexer) jackettIndexers"
  using assms by (rule checkDifferences_exact)

theorem checkDifferences_lists_witness:
  "distinct (map id_J catalog)
   \<and> (\<exists>d. checkDifferences [rule_5030, rule_forced] identical sonarr catalog = Inr d
          \<and> add d = [source_3] \<and> update d = [source_2])"
proof -
  have h: "distinct (map id_J catalog)"
    by (simp add: example_defs)
  from checkDifferences_lists [OF h, of "[rule_5030, rule_forced]" identical sonarr]
  show ?thesis
    by (simp add: h) (simp add: example_defs policy_defs)
qed

text \<open>
  C3. For every existing consumer indexer and source indexer, \<open>shouldUpdate\<close> returns
  true if and only if the consumer's \<open>compare\<close> reports a difference, or the existing
  indexer's categories after the reversal of the override rules are not set-equal to
  the expected categories, the intersection of the consumer's wanted categories with the
  source indexer's categories.
\<close>

theorem shouldUpdate_verdict:
  "fst (shouldUpdate rules compare s current indexer) \<longleftrightarrow>
     \<not> compare current indexer
     \<or> set (fst (undoIndexerSpecificConfiguration rules (serviceName s) indexer
                   (categories_I current) []))
         \<noteq> set (categories s) \<inter> set (categories_J indexer)"
  by (rule shouldUpdate_fst)

theorem shouldUpdate_verdict_witness:
  "fst (shouldUpdate [rule_5030] identical sonarr existing_1 source_1) = False
   \<and> fst (shouldUpdate [rule_5030] identical sonarr existing_2 source_2) = True"
  using shouldUpdate_verdict [of "[rule_5030]" identical sonarr existing_1 source_1]
    shouldUpdate_verdict [of "[rule_5030]" identical sonarr existing_2 source_2]
  by (simp add: example_defs undoIndexerSpecificConfiguration_def)

text \<open>
  C4. For every consumer and source indexer, \<open>shouldAdd\<close> returns true if and only if
  the indexer's categories intersect the consumer's wanted categories, or some override
  rule whose selector is ALL or the consumer's name has the indexer's id. In particular
  a source indexer of a catalog with unique ids that is absent from the consumer and
  matched by such a rule is in the add list, whatever its categories.
\<close>

theorem shouldAdd_policy:
  "(shouldAdd rules s indexer \<longleftrightarrow>
      set (categories_J indexer) \<inter> set (categories s) \<noteq> {}
      \<or> (\<exists>r \<in> set rules. (service r = ALL_S \<or> service r = serviceName s)
                            \<and> indexerId r = id_J indexer))
   \<and> (distinct (map id_J jackettIndexers) \<and> indexer \<in> set jackettIndexers
        \<and> id_J indexer \<notin> set (serviceIdList s)
        \<and> (\<exists>r \<in> set rules. (service r = ALL_S \<or> service r = serviceName s)
                              \<and> indexerId r = id_J indexer)
      \<longrightarrow> (\<exists>d. checkDifferences rules compare s jackettIndexers = Inr d
                 \<and> indexer \<in> set (add d)))"
proof (intro conjI impI)
  show iff: "shouldAdd rules s indexer \<longleftrightarrow>
      set (categories_J indexer) \<inter> set (categories s) \<noteq> {}
      \<or> (\<exists>r \<in> set rules. (service r = ALL_S \<or> service r = serviceName s)
                            \<and> indexerId r = id_J indexer)"
    by (auto simp: shouldAdd_iff ruleMatches_def)
  assume forced: "distinct (map id_J jackettIndexers) \<and> indexer \<in> set jackettIndexers
        \<and> id_J indexer \<notin> set (serviceIdList s)
        \<and> (\<exists>r \<in> set rules. (service r = ALL_S \<or> service r = serviceName s)
                              \<and> indexerId r = id_J indexer)"
  then have "shouldAdd rules s indexer" using iff by blast
  moreover from forced checkDifferences_exact [of jackettIndexers rules compare s]
  obtain d where "checkDifferences rules compare s jackettIndexers = Inr d"
    and "add d = filter (\<lambda>indexer. id_J indexer \<notin> set (serviceIdList s)
                               \<and> shouldAdd rules s indexer) jackettIndexers"
    by blast
  ultimately show "\<exists>d. checkDifferences rules compare s jackettIndexers = Inr d
                 \<and> indexer \<in> set (add d)"
    using forced by simp
qed

theorem shouldAdd_policy_witness:
  "shouldAdd [rule_5030, rule_forced] sonarr source_3
   \<and> set (categories_J source_3) \<inter> set (categories sonarr) = {}
   \<and> distinct (map id_J catalog) \<and> source_3 \<in> set catalog
   \<and> id_J source_3 \<notin> set (serviceIdList sonarr)
   \<and> (\<exists>d. checkDifferences [rule_5030, rule_forced] identical sonarr catalog = Inr d
          \<and> source_3 \<in> set (add d))"
proof -
  have h: "distinct (map id_J catalog) \<and> source_3 \<in> set catalog
        \<and> id_J source_3 \<notin> set (serviceIdList sonarr)
        \<and> (\<exists>r \<in> set [rule_5030, rule_forced].
              (service r = ALL_S \<or> service r = serviceName sonarr)
              \<and> indexerId r = id_J source_3)"
    by (simp add: example_defs serviceIdList_def filterNotEmpty_def notEmpty_def)
  have overlap: "set (categories_J source_3) \<inter> set (categories sonarr) = {}"
    by (simp add: example_defs)
  from shouldAdd_policy [of "[rule_5030, rule_forced]" sonarr source_3 catalog identical] h
  have "shouldAdd [rule_5030, rule_forced] sonarr source_3"
    and "\<exists>d. checkDifferences [rule_5030, rule_forced] identical sonarr catalog = Inr d
          \<and> source_3 \<in> set (add d)"
    by blast+
  with h overlap show ?thesis by blast
qed

text \<open>
  C5. A consumer indexer id that is absent from the ids of the source catalog is the id
  of no entry of the add list and of no entry of the update list, so no create or update
  request that \<open>sync\<close> issues is for it; it is among the ids that \<open>checkDifferences\<close>
  warns about.
\<close>

theorem orphan_untouched:
  assumes "i \<in> set (serviceIdList s)" and "i \<notin> id_J ` set jackettIndexers"
  shows "\<exists>d. checkDifferences rules compare s jackettIndexers = Inr d
     \<and> i \<notin> id_J ` set (add d) \<and> i \<notin> id_J ` set (update d)
     \<and> i \<in> set (notInJackett d)
     \<and> i \<notin> (\<lambda>q. id_J (indexerOf q)) ` set (requests (sync rules compare respond s jackettIndexers))"
proof -
  from checkDifferences_members [of rules compare s jackettIndexers]
  obtain d where d: "checkDifferences rules compare s jackettIndexers = Inr d"
    and sub: "set (add d) \<subseteq> set jackettIndexers" "set (update d) \<subseteq> set jackettIndexers"
    and n: "notInJackett d = filter (\<lambda>i. i \<notin> id_J ` set jackettIndexers) (serviceIdList s)"
    by blast
  have source: "id_J x \<noteq> i" if "x \<in> set jackettIndexers" for x
    using that assms(2) by auto
  have a: "i \<notin> id_J ` set (add d)"
    using sub(1) source by auto
  have u: "i \<notin> id_J ` set (update d)"
    using sub(2) source by auto
  have w: "i \<in> set (notInJackett d)"
    using assms by (simp add: n)
  from sync_outcome [of rules compare s jackettIndexers respond] d
  have reqs: "requests (sync rules compare respond s jackettIndexers)
         = map Post (add d)
           @ map (\<lambda>indexer. Put (appId (the (existingFor s (id_J indexer)))) indexer) (update d)"
    by simp
  have "(\<lambda>q. id_J (indexerOf q)) ` set (requests (sync rules compare respond s jackettIndexers))
          = id_J ` set (add d) \<union> id_J ` set (update d)"
    by (simp add: reqs image_Un image_image)
  with a u have r: "i \<notin> (\<lambda>q. id_J (indexerOf q))
                       ` set (requests (sync rules compare respond s jackettIndexers))"
    by simp
  from d a u w r show ?thesis by simp
qed

theorem orphan_untouched_witness:
  "5 \<in> set (serviceIdList sonarr) \<and> 5 \<notin> id_J ` set catalog
   \<and> (\<exists>d. checkDifferences [rule_5030, rule_forced] identical sonarr catalog = Inr d
          \<and> 5 \<notin> id_J ` set (add d) \<and> 5 \<notin> id_J ` set (update d)
          \<and> 5 \<in> set (notInJackett d)
          \<and> 5 \<notin> (\<lambda>q. id_J (indexerOf q))
                  ` set (requests (sync [rule_5030, rule_forced] identical rejects_3 sonarr catalog)))"
proof -
  have h1: "5 \<in> set (serviceIdList sonarr)"
    by (simp add: example_defs serviceIdList_def filterNotEmpty_def notEmpty_def)
  have h2: "5 \<notin> id_J ` set catalog"
    by (simp add: example_defs)
  from orphan_untouched [OF h1 h2, of "[rule_5030, rule_forced]" identical rejects_3] h1 h2
  show ?thesis by simp
qed

text \<open>
  C6. For every existing consumer indexer and source indexer whose category collections,
  the existing one after the reversal of the override rules and the expected one,
  contain the same elements, \<open>shouldUpdate\<close> returns false when \<open>compare\<close> reports no
  difference, whatever the order of the elements in the two collections. In particular
  the verdict of \<open>shouldUpdate\<close> is the same for the stored categories in any other order,
  as long as \<open>compare\<close> gives the same answer.
\<close>

theorem same_elements_no_update:
  "(compare current indexer
      \<and> set (fst (undoIndexerSpecificConfiguration rules (serviceName s) indexer
                     (categories_I current) []))
          = set (filter (\<lambda>id. id \<in> set (categories_J indexer)) (categories s))
    \<longrightarrow> \<not> fst (shouldUpdate rules compare s current indexer))
   \<and> (mset reordered = mset (categories_I current)
      \<and> compare (current\<lparr>categories_I := reordered\<rparr>) indexer = compare current indexer
    \<longrightarrow> fst (shouldUpdate rules compare s (current\<lparr>categories_I := reordered\<rparr>) indexer)
          = fst (shouldUpdate rules compare s current indexer))"
proof (intro conjI impI)
  assume "compare current indexer
      \<and> set (fst (undoIndexerSpecificConfiguration rules (serviceName s) indexer
                     (categories_I current) []))
          = set (filter (\<lambda>id. id \<in> set (categories_J indexer)) (categories s))"
  then show "\<not> fst (shouldUpdate rules compare s current indexer)"
    by (simp add: shouldUpdate_def containsAllWantedCategories_def arrayEquals_def Let_def)
next
  assume h: "mset reordered = mset (categories_I current)
      \<and> compare (current\<lparr>categories_I := reordered\<rparr>) indexer = compare current indexer"
  then have "set (fold remove1 (namedCategories rules (serviceName s) indexer) reordered)
        = set (fold remove1 (namedCategories rules (serviceName s) indexer) (categories_I current))"
    by (intro set_fold_remove1_mset) simp
  with h show "fst (shouldUpdate rules compare s (current\<lparr>categories_I := reordered\<rparr>) indexer)
          = fst (shouldUpdate rules compare s current indexer)"
    by (simp add: shouldUpdate_fst undo_categories)
qed

theorem same_elements_no_update_witness:
  "identical existing_swapped source_swapped
   \<and> fst (undoIndexerSpecificConfiguration [rule_5030] (serviceName radarr) source_swapped
            (categories_I existing_swapped) []) = [3000, 2000]
   \<and> filter (\<lambda>id. id \<in> set (categories_J source_swapped)) (categories radarr) = [2000, 3000]
   \<and> fst (shouldUpdate [rule_5030] identical radarr existing_swapped source_swapped) = False
   \<and> mset [2000, 3000, 5030] = mset (categories_I existing_swapped)
   \<and> fst (shouldUpdate [rule_5030] identical radarr
            (existing_swapped\<lparr>categories_I := [2000, 3000, 5030]\<rparr>) source_swapped) = False"
proof -
  have h1: "identical existing_swapped source_swapped"
    by (simp add: identical_def)
  have undone: "fst (undoIndexerSpecificConfiguration [rule_5030] (serviceName radarr)
            source_swapped (categories_I existing_swapped) []) = [3000, 2000]"
    by (simp add: example_defs undoIndexerSpecificConfiguration_def)
  have expected: "filter (\<lambda>id. id \<in> set (categories_J source_swapped)) (categories radarr)
            = [2000, 3000]"
    by (simp add: example_defs)
  have h2: "set (fst (undoIndexerSpecificConfiguration [rule_5030] (serviceName radarr)
                        source_swapped (categories_I existing_swapped) []))
            = set (filter (\<lambda>id. id \<in> set (categories_J source_swapped)) (categories radarr))"
    by (simp only: undone expected) auto
  have h3: "mset [2000, 3000, 5030] = mset (categories_I existing_swapped)"
    by (simp add: existing_swapped_def)
  have h4: "identical (existing_swapped\<lparr>categories_I := [2000, 3000, 5030]\<rparr>) source_swapped
            = identical existing_swapped source_swapped"
    by (simp add: identical_def)
  note inst = same_elements_no_update
    [where compare = identical and current = existing_swapped and indexer = source_swapped
       and rules = "[rule_5030]" and s = radarr and reordered = "[2000, 3000, 5030]"]
  from inst [THEN conjunct1, THEN mp, OF conjI, OF h1 h2]
  have no: "fst (shouldUpdate [rule_5030] identical radarr existing_swapped
                                  source_swapped) = False"
    by simp
  from inst [THEN conjunct2, THEN mp, OF conjI, OF h3 h4]
  have "fst (shouldUpdate [rule_5030] identical radarr
            (existing_swapped\<lparr>categories_I := [2000, 3000, 5030]\<rparr>) source_swapped)
          = fst (shouldUpdate [rule_5030] identical radarr existing_swapped source_swapped)" .
  with no h1 undone expected h3 show ?thesis by simp
qed

text \<open>
  C9, as amended. Evaluating \<open>shouldUpdate\<close> leaves the existing indexer as it is when
  \<open>compare\<close> reports a difference. Otherwise it replaces the indexer's stored
  categories: for every matching override rule, in the order of the rule table, the first
  occurrence of the rule's category is removed when the category is present. No anime
  category is removed from the stored categories. The indexer is changed exactly when
  \<open>compare\<close> reports no difference and the category of some matching rule is among its
  stored categories.
\<close>

theorem shouldUpdate_effect:
  "snd (shouldUpdate rules compare s current indexer) =
     (if compare current indexer
      then current\<lparr>categories_I :=
             fold remove1 (namedCategories rules (serviceName s) indexer) (categories_I current)\<rparr>
      else current)
   \<and> (snd (shouldUpdate rules compare s current indexer) \<noteq> current \<longleftrightarrow>
        compare current indexer
        \<and> set (namedCategories rules (serviceName s) indexer) \<inter> set (categories_I current) \<noteq> {})"
  using shouldUpdate_snd [of rules compare s current indexer]
    shouldUpdate_changes [of rules compare s current indexer]
  by (simp only: simp_thms)

theorem shouldUpdate_effect_witness:
  "snd (shouldUpdate [rule_5030] identical sonarr existing_1 source_1)
     = existing_1\<lparr>categories_I := [2000]\<rparr>
   \<and> snd (shouldUpdate [rule_5030] identical sonarr existing_2 source_2) = existing_2"
  using shouldUpdate_effect [of "[rule_5030]" identical sonarr existing_1 source_1]
    shouldUpdate_effect [of "[rule_5030]" identical sonarr existing_2 source_2]
  by (simp add: example_defs namedCategories_def ruleMatches_def)

text \<open>
  C9, as stated, fails: the anime category 5070 of the matching rule \<open>rule_5030\<close> is
  still among the stored categories after the check, and with an empty rule table the
  check leaves the indexer unchanged.
\<close>

theorem shouldUpdate_effect_counterexample:
  "ruleMatches (serviceName sonarr) source_1 rule_5030
   \<and> animeCategory rule_5030 = Some 5070
   \<and> identical existing_anime source_1
   \<and> categories_I (snd (shouldUpdate [rule_5030] identical sonarr existing_anime source_1))
       = [2000, 5070]
   \<and> snd (shouldUpdate [] identical sonarr existing_anime source_1) = existing_anime"
  by (simp add: example_defs ruleMatches_def shouldUpdate_def containsAllWantedCategories_def
        undoIndexerSpecificConfiguration_def Let_def)

text \<open>
  C10. \<open>checkDifferences\<close> returns, and for every indexer of its update list the
  consumer's fetched indexers hold an indexer with the same id; the lookup of \<open>sync\<close>
  (line 63) finds the first of them and the update request carries its \<open>appId\<close>. So no
  callback of the update batch throws at the lookup: \<open>sync\<close> issues one POST for every
  entry of the add list and one PUT, with the \<open>appId\<close> found, for every entry of the
  update list, whatever the API answers.
\<close>

theorem update_addressed:
  "\<exists>d. checkDifferences rules compare s jackettIndexers = Inr d
     \<and> (\<forall>indexer \<in> set (update d).
          \<exists>existing. find (\<lambda>existingIndexer. id_I existingIndexer = Some (id_J indexer))
                        (indexers s) = Some existing
            \<and> existing \<in> set (indexers s) \<and> id_I existing = Some (id_J indexer)
            \<and> updateRequest (after d) indexer = Inr (Put (appId existing) indexer))
     \<and> requests (sync rules compare respond s jackettIndexers)
         = map Post (add d)
           @ map (\<lambda>indexer.
                    Put (appId (the (find (\<lambda>existingIndexer.
                                             id_I existingIndexer = Some (id_J indexer))
                                       (indexers s))))
                      indexer)
               (update d)"
proof -
  from checkDifferences_members [of rules compare s jackettIndexers]
  obtain d where d: "checkDifferences rules compare s jackettIndexers = Inr d"
    and u: "id_J ` set (update d) \<subseteq> set (serviceIdList s)"
    and frame: "map id_I (indexers (after d)) = map id_I (indexers s)"
      "map appId (indexers (after d)) = map appId (indexers s)"
    by blast
  have "\<exists>existing. find (\<lambda>existingIndexer. id_I existingIndexer = Some (id_J indexer))
                        (indexers s) = Some existing
            \<and> existing \<in> set (indexers s) \<and> id_I existing = Some (id_J indexer)
            \<and> updateRequest (after d) indexer = Inr (Put (appId existing) indexer)"
    if "indexer \<in> set (update d)" for indexer
  proof -
    from that u have "id_J indexer \<in> set (serviceIdList s)" by auto
    from updateRequest_found [OF this frame]
    obtain existing where f: "existingFor s (id_J indexer) = Some existing"
      and r: "updateRequest (after d) indexer = Inr (Put (appId existing) indexer)"
      by auto
    from f have "find (\<lambda>e. id_I e = Some (id_J indexer)) (indexers s) = Some existing"
      by (simp add: existingFor_def)
    moreover from this have "existing \<in> set (indexers s)" and "id_I existing = Some (id_J indexer)"
      by (auto simp: find_Some_iff)
    ultimately show ?thesis using r by simp
  qed
  moreover from sync_outcome [of rules compare s jackettIndexers respond] d
  have "requests (sync rules compare respond s jackettIndexers)
         = map Post (add d)
           @ map (\<lambda>indexer.
                    Put (appId (the (find (\<lambda>existingIndexer.
                                             id_I existingIndexer = Some (id_J indexer))
                                       (indexers s))))
                      indexer)
               (update d)"
    by (simp add: existingFor_def)
  ultimately show ?thesis using d by simp
qed

theorem update_addressed_witness:
  "\<exists>d. checkDifferences [rule_5030, rule_forced] identical sonarr catalog = Inr d
     \<and> update d = [source_2]
     \<and> find (\<lambda>existingIndexer. id_I existingIndexer = Some (id_J source_2)) (indexers sonarr)
         = Some existing_2
     \<and> updateRequest (after d) source_2 = Inr (Put (Some 9) source_2)
     \<and> requests (sync [rule_5030, rule_forced] identical null_body_3 sonarr catalog)
         = [Post source_3, Put (Some 9) source_2]"
proof -
  have d0: "checkDifferences [rule_5030, rule_forced] identical sonarr catalog
              = Inr \<lparr>add = [source_3], update = [source_2], notInJackett = [5],
                     after = sonarr\<lparr>indexers := [existing_1\<lparr>categories_I := [2000]\<rparr>,
                                                  existing_2, existing_5]\<rparr>\<rparr>"
    by (rule checkDifferences_example)
  have found: "find (\<lambda>existingIndexer. id_I existingIndexer = Some (id_J source_2))
                 (indexers sonarr) = Some existing_2"
    by (simp add: example_defs)
  from update_addressed [of "[rule_5030, rule_forced]" identical sonarr catalog null_body_3]
  obtain existing where
    f: "find (\<lambda>existingIndexer. id_I existingIndexer = Some (id_J source_2)) (indexers sonarr)
          = Some existing"
    and r: "updateRequest
              (sonarr\<lparr>indexers := [existing_1\<lparr>categories_I := [2000]\<rparr>, existing_2, existing_5]\<rparr>)
              source_2 = Inr (Put (appId existing) source_2)"
    and q: "requests (sync [rule_5030, rule_forced] identical null_body_3 sonarr catalog)
         = [Post source_3,
            Put (appId (the (find (\<lambda>existingIndexer. id_I existingIndexer = Some (id_J source_2))
                               (indexers sonarr)))) source_2]"
    by (auto simp: d0)
  from f found have "existing = existing_2" by simp
  with r q found show ?thesis by (simp add: d0 existing_2_def)
qed



end
